theory Spec2Isabelle
  imports
    Main
    "HOL-Library.Word"
    "HOL-Library.Char_ord"
    "HOL-Library.List_Lexorder"
    "HOL-Library.Product_Lexorder"
    "HOL-Library.Multiset"
begin

section \<open>The data model of package portlist\<close>

text \<open>
  A \<open>Port\<close> is one listening port: the protocol name, the 16-bit port number, the
  optional process name and the OS-specific socket identity (\<open>inode\<close>). Go strings
  are byte sequences compared bytewise, which is the lexicographic order on
  \<open>char list\<close>; \<open>uint16\<close> is a 16-bit word compared as an unsigned number.
\<close>

record Port =
  Proto :: string
  Port :: "16 word"
  Process :: string
  inode :: string

type_synonym List = "Port list"

section \<open>The comparator\<close>

text \<open>
  Method \<open>(a *Port) lessThan(b *Port)\<close>. The name carries the receiver type as a
  suffix, since \<open>lessThan\<close> is already a constant of HOL.
\<close>

definition lessThan_Port :: "Port \<Rightarrow> Port \<Rightarrow> bool" where
  "lessThan_Port a b =
     (if Port a < Port b then True
      else if Port a > Port b then False
      else if Proto a < Proto b then True
      else if Proto a > Proto b then False
      else if inode a < inode b then True
      else if inode a > inode b then False
      else if Process a < Process b then True
      else if Process a > Process b then False
      else False)"

section \<open>Sorting and deduplication\<close>

text \<open>
  \<open>sort.Slice\<close> belongs to Go's standard library: it reorders the slice so that it is
  sorted under the given \<open>less\<close> function, and promises no stability. It is embedded
  as an insertion sort that calls the comparator; lemma \<open>sort_Slice_unique\<close> below
  shows that every procedure returning a sorted permutation returns this very list,
  because elements that the comparator does not separate are equal in all fields.
\<close>

fun insert_Slice :: "Port \<Rightarrow> Port list \<Rightarrow> Port list" where
  "insert_Slice p [] = [p]"
| "insert_Slice p (q # qs) =
     (if lessThan_Port p q then p # q # qs else q # insert_Slice p qs)"

fun sort_Slice :: "Port list \<Rightarrow> Port list" where
  "sort_Slice [] = []"
| "sort_Slice (p # ps) = insert_Slice p (sort_Slice ps)"

text \<open>\<open>var last Port\<close>: the zero value of the struct.\<close>

definition zeroPort :: Port where
  "zeroPort = \<lparr>Proto = [], Port = 0, Process = [], inode = []\<rparr>"

text \<open>
  The dedup loop of \<open>sortAndDedup\<close>, with the slice aliasing of the source: \<open>buf\<close> is
  the backing array of \<open>ps\<close>, \<open>i\<close> the position of the \<open>range\<close> loop, and \<open>out\<close> is
  the prefix of length \<open>n\<close> of the same array (\<open>out := ps[:0]\<close>), so
  \<open>append(out, p)\<close> stores \<open>p\<close> at index \<open>n\<close> of \<open>buf\<close>. The loop keeps \<open>n \<le> i\<close>,
  hence every store is inside the array and never ahead of the reads (lemma
  \<open>dedup_loop_pure\<close>).
\<close>

function dedup_loop :: "Port list \<Rightarrow> nat \<Rightarrow> nat \<Rightarrow> Port \<Rightarrow> Port list" where
  "dedup_loop buf i n last' =
     (if i < length buf then
        (let p = buf ! i;
             protoPort = \<lparr>Proto = Proto p, Port = Port p, Process = [], inode = []\<rparr>
         in if last' = protoPort then dedup_loop buf (i + 1) n last'
            else dedup_loop (buf[n := p]) (i + 1) (n + 1) protoPort)
      else take n buf)"
  by pat_completeness auto
termination
  by (relation "measure (\<lambda>(buf, i, n, last'). length buf - i)") auto

declare dedup_loop.simps [simp del]

definition sortAndDedup :: "List \<Rightarrow> List" where
  "sortAndDedup ps = dedup_loop (sort_Slice ps) 0 0 zeroPort"

section \<open>Change detection\<close>

text \<open>
  Indexing a Go slice out of range panics. The index expressions of \<open>sameInodes\<close> are
  embedded with the check, so that a panic would be the value \<open>Inl IndexOutOfRange\<close>.
\<close>

datatype panic = IndexOutOfRange

definition index :: "'a list \<Rightarrow> nat \<Rightarrow> panic + 'a" where
  "index xs i = (if i < length xs then Inr (xs ! i) else Inl IndexOutOfRange)"

function sameInodes_loop :: "List \<Rightarrow> List \<Rightarrow> nat \<Rightarrow> panic + bool" where
  "sameInodes_loop a b i =
     (if i < length a then
        (case index a i of
           Inl e \<Rightarrow> Inl e
         | Inr ai \<Rightarrow>
             (case index b i of
                Inl e \<Rightarrow> Inl e
              | Inr bi \<Rightarrow>
                  if Proto ai \<noteq> Proto bi \<or> Port ai \<noteq> Port bi \<or> inode ai \<noteq> inode bi
                  then Inr False
                  else sameInodes_loop a b (i + 1)))
      else Inr True)"
  by pat_completeness auto
termination
  by (relation "measure (\<lambda>(a, b, i). length a - i)") auto

declare sameInodes_loop.simps [simp del]

definition sameInodes :: "List \<Rightarrow> List \<Rightarrow> panic + bool" where
  "sameInodes a b =
     (if length a \<noteq> length b then Inr False else sameInodes_loop a b 0)"

section \<open>Rendering\<close>

text \<open>
  \<open>fmt.Fprintf\<close> with the format \<open>%-3s %5d %-17s %#v\<close> and a newline. The verbs are
  Go's standard library: a width is a minimum, counted in Unicode code points; the
  flag \<open>-\<close> pads with spaces on the right, the default on the left; \<open>%d\<close> prints
  decimal digits; \<open>%#v\<close> of a string is its double-quoted Go literal. The count of
  code points of a byte string (\<open>runeCount\<close>) and the escaping of the bytes between
  the quotes (\<open>escape\<close>) depend on Unicode tables outside the repository and are
  parameters of the embedding.
\<close>

definition digit :: "nat \<Rightarrow> char" where
  "digit d = char_of (of_char CHR ''0'' + d)"

fun decimal :: "nat \<Rightarrow> string" where
  "decimal n = (if n < 10 then [digit n] else decimal (n div 10) @ [digit (n mod 10)])"

declare decimal.simps [simp del]

definition fmt_s_left :: "(string \<Rightarrow> nat) \<Rightarrow> nat \<Rightarrow> string \<Rightarrow> string" where
  "fmt_s_left runeCount w s = s @ replicate (w - runeCount s) CHR '' ''"

definition fmt_d :: "nat \<Rightarrow> nat \<Rightarrow> string" where
  "fmt_d w n = replicate (w - length (decimal n)) CHR '' '' @ decimal n"

definition fmt_sharp_v :: "(string \<Rightarrow> string) \<Rightarrow> string \<Rightarrow> string" where
  "fmt_sharp_v escape s = [CHR 0x22] @ escape s @ [CHR 0x22]"

definition Fprintf_Port :: "(string \<Rightarrow> nat) \<Rightarrow> (string \<Rightarrow> string) \<Rightarrow> Port \<Rightarrow> string" where
  "Fprintf_Port runeCount escape v =
     fmt_s_left runeCount 3 (Proto v) @ '' '' @ fmt_d 5 (unat (Port v)) @ '' '' @
     fmt_s_left runeCount 17 (inode v) @ '' '' @ fmt_sharp_v escape (Process v) @ [CHR 0x0A]"

text \<open>
  \<open>strings.TrimRight(s, "\n")\<close> removes every trailing newline byte. Method
  \<open>(pl List) String()\<close> is \<open>String_List\<close>; its loop appends to the builder \<open>sb\<close>.
\<close>

definition TrimRight_newline :: "string \<Rightarrow> string" where
  "TrimRight_newline s = rev (dropWhile (\<lambda>c. c = CHR 0x0A) (rev s))"

fun String_loop :: "(string \<Rightarrow> nat) \<Rightarrow> (string \<Rightarrow> string) \<Rightarrow> List \<Rightarrow> string \<Rightarrow> string" where
  "String_loop runeCount escape [] sb = sb"
| "String_loop runeCount escape (v # pl) sb =
     String_loop runeCount escape pl (sb @ Fprintf_Port runeCount escape v)"

definition String_List :: "(string \<Rightarrow> nat) \<Rightarrow> (string \<Rightarrow> string) \<Rightarrow> List \<Rightarrow> string" where
  "String_List runeCount escape pl = TrimRight_newline (String_loop runeCount escape pl [])"

section \<open>Auxiliary notions for the statements\<close>

text \<open>The four fields in the comparator's order of significance, as a tuple.\<close>

definition sortKey :: "Port \<Rightarrow> 16 word \<times> string \<times> string \<times> string" where
  "sortKey p = (Port p, Proto p, inode p, Process p)"

text \<open>The dedup key, in the order in which the comparator reads its two fields.\<close>

definition protoPortKey :: "Port \<Rightarrow> 16 word \<times> string" where
  "protoPortKey p = (Port p, Proto p)"

text \<open>The dedup pass of \<open>sortAndDedup\<close> without the aliasing, on the part of the list still
  to be read.\<close>

fun dedup_pure :: "Port list \<Rightarrow> Port \<Rightarrow> Port list" where
  "dedup_pure [] last' = []"
| "dedup_pure (p # ps) last' =
     (let protoPort = \<lparr>Proto = Proto p, Port = Port p, Process = [], inode = []\<rparr>
      in if last' = protoPort then dedup_pure ps last'
         else p # dedup_pure ps protoPort)"

text \<open>The dedup pass, written on the key alone.\<close>

fun dedup_key :: "Port list \<Rightarrow> 16 word \<times> string \<Rightarrow> Port list" where
  "dedup_key [] k = []"
| "dedup_key (p # ps) k =
     (if protoPortKey p = k then dedup_key ps k else p # dedup_key ps (protoPortKey p))"

text \<open>A well-formed batch: every protocol is \<open>"tcp"\<close> or \<open>"udp"\<close>.\<close>

definition wellFormed :: "List \<Rightarrow> bool" where
  "wellFormed ps = list_all (\<lambda>p. Proto p = ''tcp'' \<or> Proto p = ''udp'') ps"

text \<open>Replacing the process names of a list, position by position.\<close>

definition setProcesses :: "List \<Rightarrow> string list \<Rightarrow> List" where
  "setProcesses pl procs = map2 (\<lambda>p s. p\<lparr>Process := s\<rparr>) pl procs"

text \<open>Lines separated by single newlines, with none after the last line.\<close>

fun joinLines :: "string list \<Rightarrow> string" where
  "joinLines [] = []"
| "joinLines [l] = l"
| "joinLines (l # l' # ls) = l @ [CHR 0x0A] @ joinLines (l' # ls)"

text \<open>Observations used as concrete inputs.\<close>

abbreviation (input) tcp80 :: Port where
  "tcp80 \<equiv> \<lparr>Proto = ''tcp'', Port = 80, Process = [], inode = []\<rparr>"

abbreviation (input) tcp80nginx :: Port where
  "tcp80nginx \<equiv> \<lparr>Proto = ''tcp'', Port = 80, Process = ''nginx'', inode = ''sock2''\<rparr>"

abbreviation (input) udp53 :: Port where
  "udp53 \<equiv> \<lparr>Proto = ''udp'', Port = 53, Process = ''dns'', inode = ''sock3''\<rparr>"

abbreviation (input) sshdA :: Port where
  "sshdA \<equiv> \<lparr>Proto = ''tcp'', Port = 22, Process = ''sshd'', inode = ''sockA''\<rparr>"

abbreviation (input) sshd2A :: Port where
  "sshd2A \<equiv> \<lparr>Proto = ''tcp'', Port = 22, Process = ''sshd2'', inode = ''sockA''\<rparr>"

abbreviation (input) sshdB :: Port where
  "sshdB \<equiv> \<lparr>Proto = ''tcp'', Port = 22, Process = ''sshd'', inode = ''sockB''\<rparr>"

text \<open>
  The line that the specification describes for one observation: the protocol
  left-justified to 3 characters, the port right-justified to 5, the socket identity
  left-justified to 17, and the process name between double quotes, escaped, with
  single spaces between the columns.
\<close>

definition specLine :: "(string \<Rightarrow> nat) \<Rightarrow> (string \<Rightarrow> string) \<Rightarrow> Port \<Rightarrow> string" where
  "specLine runeCount escape v =
     Proto v @ replicate (3 - runeCount (Proto v)) CHR '' '' @ '' '' @
     replicate (5 - length (decimal (unat (Port v)))) CHR '' '' @ decimal (unat (Port v)) @ '' '' @
     inode v @ replicate (17 - runeCount (inode v)) CHR '' '' @ '' '' @
     [CHR 0x22] @ escape (Process v) @ [CHR 0x22]"

text \<open>
  The value of a string of decimal digits, most significant first, and the test for a
  decimal digit: they say what the port column holds without using \<open>decimal\<close>.
\<close>

definition natOfDigits :: "string \<Rightarrow> nat" where
  "natOfDigits ds = foldl (\<lambda>a c. 10 * a + (of_char c - 48)) 0 ds"

definition isDigit :: "char \<Rightarrow> bool" where
  "isDigit c = (CHR ''0'' \<le> c \<and> c \<le> CHR ''9'')"

text \<open>
  The physical lines of a text: the pieces between its newline bytes; the empty text
  has no line.
\<close>

fun splitNewline :: "string \<Rightarrow> string \<Rightarrow> string list" where
  "splitNewline cur [] = [cur]"
| "splitNewline cur (c # cs) =
     (if c = CHR 0x0A then cur # splitNewline [] cs else splitNewline (cur @ [c]) cs)"

definition physicalLines :: "string \<Rightarrow> string list" where
  "physicalLines s = (if s = [] then [] else splitNewline [] s)"

text \<open>An observation whose socket identity holds a newline, and one with a long identity.\<close>

abbreviation (input) nlPort :: Port where
  "nlPort \<equiv>
     \<lparr>Proto = ''tcp'', Port = 80, Process = ''x'', inode = [CHR ''a'', CHR 0x0A, CHR ''b'']\<rparr>"

abbreviation (input) udp65535 :: Port where
  "udp65535 \<equiv>
     \<lparr>Proto = ''udp'', Port = 65535, Process = ''dns'', inode = ''socket:[165614651]''\<rparr>"

section \<open>Properties of the comparator and of sorting\<close>

lemma lessThan_sortKey: "lessThan_Port a b \<longleftrightarrow> sortKey a < sortKey b"
  by (auto simp: lessThan_Port_def sortKey_def)

lemma sortKey_inj: "sortKey a = sortKey b \<Longrightarrow> a = b"
  by (cases a, cases b) (simp add: sortKey_def)

lemma sortKey_le_protoPortKey: "sortKey a \<le> sortKey b \<Longrightarrow> protoPortKey a \<le> protoPortKey b"
  by (auto simp: sortKey_def protoPortKey_def)

lemma protoPortKey_less_sortKey: "protoPortKey a < protoPortKey b \<Longrightarrow> sortKey a < sortKey b"
  by (auto simp: sortKey_def protoPortKey_def)

lemma mset_insert_Slice: "mset (insert_Slice p qs) = add_mset p (mset qs)"
  by (induction qs) auto

lemma mset_sort_Slice: "mset (sort_Slice ps) = mset ps"
  by (induction ps) (auto simp: mset_insert_Slice)

lemma set_insert_Slice: "set (insert_Slice p qs) = insert p (set qs)"
  by (induction qs) auto

lemma set_sort_Slice: "set (sort_Slice ps) = set ps"
  by (induction ps) (auto simp: set_insert_Slice)

lemma sorted_insert_Slice:
  "sorted (map sortKey qs) \<Longrightarrow> sorted (map sortKey (insert_Slice p qs))"
  by (induction qs) (auto simp: set_insert_Slice lessThan_sortKey)

lemma sorted_sort_Slice: "sorted (map sortKey (sort_Slice ps))"
  by (induction ps) (auto simp: sorted_insert_Slice)

lemma sorted_wrt_lessThan_sortKey:
  "sorted_wrt (\<lambda>a b. \<not> lessThan_Port b a) ys \<longleftrightarrow> sorted (map sortKey ys)"
  by (simp add: sorted_wrt_map lessThan_sortKey not_less)

lemma sort_Slice_unique:
  assumes "mset ys = mset xs" and "sorted_wrt (\<lambda>a b. \<not> lessThan_Port b a) ys"
  shows "ys = sort_Slice xs"
proof -
  have "sort (map sortKey xs) = map sortKey ys"
    using assms by (intro properties_for_sort) (simp_all add: sorted_wrt_lessThan_sortKey)
  moreover have "sort (map sortKey xs) = map sortKey (sort_Slice xs)"
    by (intro properties_for_sort) (simp_all add: sorted_sort_Slice mset_sort_Slice)
  ultimately have "map sortKey ys = map sortKey (sort_Slice xs)" by simp
  moreover have "inj sortKey" by (rule injI) (rule sortKey_inj)
  ultimately show ?thesis by (simp add: inj_map_eq_map)
qed

section \<open>The dedup pass\<close>

lemma dedup_loop_pure:
  "n \<le> i \<Longrightarrow> i \<le> length buf \<Longrightarrow>
   dedup_loop buf i n l = take n buf @ dedup_pure (drop i buf) l"
proof (induction buf i n l rule: dedup_loop.induct)
  case (1 buf i n l)
  show ?case
  proof (cases "i < length buf")
    case False
    with "1.prems" show ?thesis by (subst dedup_loop.simps) simp
  next
    case True
    let ?p = "buf ! i"
    let ?pp = "\<lparr>Proto = Proto ?p, Port = Port ?p, Process = [], inode = []\<rparr>"
    have dr: "drop i buf = ?p # drop (Suc i) buf"
      using True by (simp add: Cons_nth_drop_Suc)
    show ?thesis
    proof (cases "l = ?pp")
      case same: True
      have "dedup_loop buf i n l = dedup_loop buf (i + 1) n l"
        using True same by (subst dedup_loop.simps) (simp add: Let_def)
      also have "\<dots> = take n buf @ dedup_pure (drop (i + 1) buf) l"
        using "1.IH"(1) [OF True refl refl same] "1.prems" True by simp
      finally show ?thesis using same by (simp add: dr Let_def)
    next
      case diff: False
      have "dedup_loop buf i n l = dedup_loop (buf[n := ?p]) (i + 1) (n + 1) ?pp"
        using True diff by (subst dedup_loop.simps) (simp add: Let_def)
      also have "\<dots> = take (n + 1) (buf[n := ?p]) @ dedup_pure (drop (i + 1) (buf[n := ?p])) ?pp"
        using "1.IH"(2) [OF True refl refl diff] "1.prems" True by simp
      also have "take (n + 1) (buf[n := ?p]) = take n buf @ [?p]"
        using "1.prems" True by (simp add: take_Suc_conv_app_nth)
      also have "drop (i + 1) (buf[n := ?p]) = drop (i + 1) buf"
        using "1.prems" by simp
      finally show ?thesis using diff by (simp add: dr Let_def)
    qed
  qed
qed

lemma sortAndDedup_pure: "sortAndDedup ps = dedup_pure (sort_Slice ps) zeroPort"
  by (simp add: sortAndDedup_def dedup_loop_pure)

lemma protoPort_eq_key:
  "Process l = [] \<Longrightarrow> inode l = [] \<Longrightarrow>
   (l = \<lparr>Proto = Proto p, Port = Port p, Process = [], inode = []\<rparr>) = (protoPortKey p = protoPortKey l)"
  by (cases l) (auto simp: protoPortKey_def)

lemma dedup_pure_key:
  "Process l = [] \<Longrightarrow> inode l = [] \<Longrightarrow> dedup_pure xs l = dedup_key xs (protoPortKey l)"
proof (induction xs arbitrary: l)
  case Nil
  show ?case by simp
next
  case (Cons p xs)
  let ?pp = "\<lparr>Proto = Proto p, Port = Port p, Process = [], inode = []\<rparr>"
  have k: "protoPortKey ?pp = protoPortKey p" by (simp add: protoPortKey_def)
  show ?case
    using Cons.IH [of l] Cons.IH [of ?pp] Cons.prems
    by (simp add: Let_def protoPort_eq_key k)
qed

lemma sortAndDedup_key: "sortAndDedup ps = dedup_key (sort_Slice ps) (0, [])"
  by (simp add: sortAndDedup_pure dedup_pure_key zeroPort_def protoPortKey_def)

lemma set_dedup_key: "set (dedup_key xs k) \<subseteq> set xs"
proof (induction xs arbitrary: k)
  case Nil
  show ?case by simp
next
  case (Cons p xs)
  from Cons.IH [of k] Cons.IH [of "protoPortKey p"] show ?case
    by (simp only: dedup_key.simps split: if_splits) auto
qed

lemma dedup_key_above:
  "sorted (map protoPortKey xs) \<Longrightarrow> \<forall>x\<in>set xs. k \<le> protoPortKey x \<Longrightarrow>
   r \<in> set (dedup_key xs k) \<Longrightarrow> k < protoPortKey r"
proof (induction xs arbitrary: k)
  case Nil
  then show ?case by simp
next
  case (Cons p xs)
  show ?case
  proof (cases "protoPortKey p = k")
    case True
    with Cons.prems have "r \<in> set (dedup_key xs k)" by simp
    with Cons show ?thesis by simp
  next
    case False
    with Cons.prems have lt: "k < protoPortKey p" by (simp add: less_le)
    from False Cons.prems consider "r = p" | "r \<in> set (dedup_key xs (protoPortKey p))"
      by auto
    then show ?thesis
    proof cases
      case 1
      with lt show ?thesis by simp
    next
      case 2
      have "protoPortKey p < protoPortKey r"
        using Cons.IH [of "protoPortKey p"] Cons.prems(1) 2 by simp
      with lt show ?thesis by simp
    qed
  qed
qed

lemma dedup_key_strict:
  "sorted (map protoPortKey xs) \<Longrightarrow>
   sorted_wrt (\<lambda>a b. protoPortKey a < protoPortKey b) (dedup_key xs k)"
proof (induction xs arbitrary: k)
  case Nil
  show ?case by simp
next
  case (Cons p xs)
  have "\<forall>r\<in>set (dedup_key xs (protoPortKey p)). protoPortKey p < protoPortKey r"
    using dedup_key_above [of xs "protoPortKey p"] Cons.prems by simp
  with Cons show ?case by simp
qed

lemma dedup_key_keys:
  "sorted (map protoPortKey xs) \<Longrightarrow> \<forall>x\<in>set xs. k \<le> protoPortKey x \<Longrightarrow>
   protoPortKey ` set (dedup_key xs k) = protoPortKey ` set xs - {k}"
proof (induction xs arbitrary: k)
  case Nil
  show ?case by simp
next
  case (Cons p xs)
  show ?case
  proof (cases "protoPortKey p = k")
    case True
    have "protoPortKey ` set (dedup_key xs k) = protoPortKey ` set xs - {k}"
      using Cons.IH [of k] Cons.prems by simp
    with True show ?thesis by auto
  next
    case False
    with Cons.prems have lt: "k < protoPortKey p" by (simp add: less_le)
    have above: "\<forall>x\<in>set xs. protoPortKey p \<le> protoPortKey x"
      using Cons.prems(1) by simp
    have ih: "protoPortKey ` set (dedup_key xs (protoPortKey p)) =
        protoPortKey ` set xs - {protoPortKey p}"
      using Cons.IH [of "protoPortKey p"] Cons.prems(1) by simp
    have "k \<notin> protoPortKey ` set xs"
      using above lt by auto
    with ih False show ?thesis by auto
  qed
qed

lemma sorted_sortKey_protoPortKey:
  "sorted (map sortKey xs) \<Longrightarrow> sorted (map protoPortKey xs)"
  by (induction xs) (auto simp: sortKey_le_protoPortKey)

lemma dedup_key_first:
  "sorted (map sortKey xs) \<Longrightarrow> \<forall>x\<in>set xs. k \<le> protoPortKey x \<Longrightarrow>
   r \<in> set (dedup_key xs k) \<Longrightarrow> x \<in> set xs \<Longrightarrow> protoPortKey x = protoPortKey r \<Longrightarrow>
   sortKey r \<le> sortKey x"
proof (induction xs arbitrary: k)
  case Nil
  then show ?case by simp
next
  case (Cons p xs)
  have sk: "sorted (map protoPortKey xs)"
    using Cons.prems(1) by (simp add: sorted_sortKey_protoPortKey)
  have above: "\<forall>y\<in>set xs. protoPortKey p \<le> protoPortKey y"
    using Cons.prems(1) by (auto simp: sortKey_le_protoPortKey)
  show ?case
  proof (cases "protoPortKey p = k")
    case True
    with Cons.prems have r: "r \<in> set (dedup_key xs k)" by simp
    have "k < protoPortKey r"
      using dedup_key_above [OF sk _ r] Cons.prems(2) by simp
    with True Cons.prems(5) have "x \<noteq> p" by auto
    with Cons.prems(4) have "x \<in> set xs" by simp
    with Cons.IH [of k] Cons.prems r show ?thesis by simp
  next
    case False
    with Cons.prems consider "r = p" | "r \<in> set (dedup_key xs (protoPortKey p))"
      by auto
    then show ?thesis
    proof cases
      case 1
      with Cons.prems(1,4) show ?thesis by auto
    next
      case 2
      have "protoPortKey p < protoPortKey r"
        using dedup_key_above [OF sk above 2] .
      with Cons.prems(5) have "x \<noteq> p" by auto
      with Cons.prems(4) have "x \<in> set xs" by simp
      with Cons.IH [of "protoPortKey p"] Cons.prems(1,5) above 2 show ?thesis by simp
    qed
  qed
qed

lemma sortAndDedup_strict_keys:
  "sorted_wrt (\<lambda>a b. protoPortKey a < protoPortKey b) (sortAndDedup ps)"
  by (simp add: sortAndDedup_key dedup_key_strict sorted_sortKey_protoPortKey sorted_sort_Slice)

lemma sortAndDedup_strict:
  "sorted_wrt lessThan_Port (sortAndDedup ps)"
  using sortAndDedup_strict_keys [of ps]
  by (rule sorted_wrt_mono_rel [rotated]) (simp add: lessThan_sortKey protoPortKey_less_sortKey)

lemma sortAndDedup_distinct_keys: "distinct (map protoPortKey (sortAndDedup ps))"
proof -
  have "sorted_wrt (<) (map protoPortKey (sortAndDedup ps))"
    using sortAndDedup_strict_keys [of ps] by (simp add: sorted_wrt_map)
  then show ?thesis by (simp add: strict_sorted_iff)
qed

lemma sortAndDedup_subset: "set (sortAndDedup ps) \<subseteq> set ps"
  using set_dedup_key [of "sort_Slice ps" "(0, [])"]
  by (simp add: sortAndDedup_key set_sort_Slice)

lemma zero_key_least: "(0, []) \<le> protoPortKey x"
  by (simp add: protoPortKey_def)

lemma sortAndDedup_keys:
  "protoPortKey ` set (sortAndDedup ps) = protoPortKey ` set ps - {(0, [])}"
  using dedup_key_keys [of "sort_Slice ps" "(0, [])"]
  by (simp add: sortAndDedup_key sorted_sortKey_protoPortKey sorted_sort_Slice
      zero_key_least set_sort_Slice)

lemma sortAndDedup_first:
  "r \<in> set (sortAndDedup ps) \<Longrightarrow> x \<in> set ps \<Longrightarrow> protoPortKey x = protoPortKey r \<Longrightarrow>
   sortKey r \<le> sortKey x"
  using dedup_key_first [of "sort_Slice ps" "(0, [])" r x]
  by (simp add: sortAndDedup_key sorted_sort_Slice zero_key_least set_sort_Slice)

lemma filter_distinct_key:
  "distinct (map f xs) \<Longrightarrow> r \<in> set xs \<Longrightarrow> filter (\<lambda>x. f x = f r) xs = [r]"
proof (induction xs)
  case Nil
  then show ?case by simp
next
  case (Cons a xs)
  show ?case
  proof (cases "a = r")
    case True
    with Cons.prems have "\<forall>x\<in>set xs. f x \<noteq> f r" by (auto simp: image_iff)
    then have "filter (\<lambda>x. f x = f r) xs = []" by (simp add: filter_empty_conv)
    with True show ?thesis by simp
  next
    case False
    with Cons.prems have "r \<in> set xs" by simp
    moreover from this Cons.prems have "f a \<noteq> f r" by auto
    ultimately show ?thesis using Cons by simp
  qed
qed

section \<open>The claims about the normalizer\<close>

text \<open>
  Claim C10. The comparator is a strict total order on observations: it is irreflexive
  and transitive, and two observations that it does not separate in either direction
  are equal in all four fields.
\<close>

theorem lessThan_Port_strict_total_order:
  "\<not> lessThan_Port a a \<and>
   (lessThan_Port a b \<and> lessThan_Port b c \<longrightarrow> lessThan_Port a c) \<and>
   (\<not> lessThan_Port a b \<and> \<not> lessThan_Port b a \<longrightarrow>
      Proto a = Proto b \<and> Port a = Port b \<and> inode a = inode b \<and> Process a = Process b)"
proof (intro conjI impI)
  show "\<not> lessThan_Port a a" by (simp add: lessThan_sortKey)
next
  assume "lessThan_Port a b \<and> lessThan_Port b c"
  then show "lessThan_Port a c" by (auto simp: lessThan_sortKey)
next
  assume "\<not> lessThan_Port a b \<and> \<not> lessThan_Port b a"
  then have "sortKey a = sortKey b" by (auto simp: lessThan_sortKey)
  then have "a = b" by (rule sortKey_inj)
  then show "Proto a = Proto b" "Port a = Port b" "inode a = inode b" "Process a = Process b"
    by simp_all
qed

theorem lessThan_Port_strict_total_order_witness:
  "lessThan_Port udp53 tcp80 \<and> lessThan_Port tcp80 tcp80nginx \<and> lessThan_Port udp53 tcp80nginx \<and>
   \<not> lessThan_Port tcp80 tcp80 \<and> Proto tcp80 = Proto tcp80 \<and> Process tcp80 = Process tcp80"
proof -
  have h: "lessThan_Port udp53 tcp80 \<and> lessThan_Port tcp80 tcp80nginx"
    by (simp add: lessThan_Port_def)
  have i: "\<not> lessThan_Port tcp80 tcp80 \<and> \<not> lessThan_Port tcp80 tcp80"
    by (simp add: lessThan_Port_def)
  show ?thesis
    using h i lessThan_Port_strict_total_order [of udp53 tcp80 tcp80nginx]
      lessThan_Port_strict_total_order [of tcp80 tcp80 tcp80]
    by blast
qed

text \<open>
  Claim C1. The comparator orders \<open>a\<close> before \<open>b\<close> exactly by the chain: port
  ascending as a number, then protocol ascending lexicographically (\<open>"tcp"\<close> before
  \<open>"udp"\<close>), then socket identity, then process, both ascending lexicographically
  with the empty string first; and the output of \<open>sortAndDedup\<close> is sorted under it:
  no element is less than one that precedes it.
\<close>

theorem lessThan_Port_chain_and_sorted:
  "(lessThan_Port a b \<longleftrightarrow>
      unat (Port a) < unat (Port b) \<or>
      (Port a = Port b \<and>
        (Proto a < Proto b \<or>
         (Proto a = Proto b \<and>
           (inode a < inode b \<or>
            (inode a = inode b \<and> Process a < Process b)))))) \<and>
   ''tcp'' < ''udp'' \<and>
   ([] :: string) \<le> s \<and>
   sorted_wrt (\<lambda>x y. \<not> lessThan_Port y x) (sortAndDedup ps)"
proof (intro conjI)
  show "lessThan_Port a b \<longleftrightarrow>
      unat (Port a) < unat (Port b) \<or>
      (Port a = Port b \<and>
        (Proto a < Proto b \<or>
         (Proto a = Proto b \<and>
           (inode a < inode b \<or>
            (inode a = inode b \<and> Process a < Process b)))))"
    unfolding word_less_nat_alt [symmetric] by (auto simp: lessThan_Port_def)
  show "''tcp'' < ''udp''" by simp
  show "[] \<le> s" by simp
  show "sorted_wrt (\<lambda>x y. \<not> lessThan_Port y x) (sortAndDedup ps)"
    using sortAndDedup_strict [of ps]
    by (rule sorted_wrt_mono_rel [rotated]) (auto simp: lessThan_sortKey)
qed

theorem lessThan_Port_chain_and_sorted_witness:
  "lessThan_Port udp53 tcp80 \<and> unat (Port udp53) < unat (Port tcp80) \<and>
   sorted_wrt (\<lambda>x y. \<not> lessThan_Port y x) (sortAndDedup [tcp80, tcp80nginx, udp53])"
proof -
  have "unat (Port udp53) < unat (Port tcp80)" by simp
  then show ?thesis
    using lessThan_Port_chain_and_sorted [of udp53 tcp80 "[]" "[tcp80, tcp80nginx, udp53]"]
    by blast
qed

text \<open>
  Claim C3. Normalisation is deterministic and does not depend on the order of the
  batch: two batches with the same observations, in any order, give the same
  snapshot, element for element; in particular the same batch gives the same snapshot.
\<close>

theorem sortAndDedup_permutation_invariant:
  "mset ps = mset qs \<Longrightarrow> sortAndDedup ps = sortAndDedup qs"
proof -
  assume eq: "mset ps = mset qs"
  have "sorted_wrt (\<lambda>a b. \<not> lessThan_Port b a) (sort_Slice ps)"
    by (simp add: sorted_wrt_lessThan_sortKey sorted_sort_Slice)
  moreover have "mset (sort_Slice ps) = mset qs"
    using eq by (simp add: mset_sort_Slice)
  ultimately have "sort_Slice ps = sort_Slice qs" by (rule sort_Slice_unique [rotated])
  then show ?thesis by (simp add: sortAndDedup_def)
qed

theorem sortAndDedup_permutation_invariant_witness:
  "mset [tcp80, tcp80nginx, udp53] = mset [udp53, tcp80nginx, tcp80] \<and>
   sortAndDedup [tcp80, tcp80nginx, udp53] = sortAndDedup [udp53, tcp80nginx, tcp80]"
proof -
  have h: "mset [tcp80, tcp80nginx, udp53] = mset [udp53, tcp80nginx, tcp80]"
    by (simp add: add_mset_commute)
  show ?thesis using h sortAndDedup_permutation_invariant [OF h] by simp
qed

text \<open>
  Claim C6. For a well-formed batch the output is strictly increasing under the
  comparator (each element is less than its successor), and no two elements at
  different positions share the dedup key (protocol, port).
\<close>

theorem sortAndDedup_strictly_increasing:
  assumes "wellFormed ps"
  shows "(\<forall>i. Suc i < length (sortAndDedup ps) \<longrightarrow>
            lessThan_Port (sortAndDedup ps ! i) (sortAndDedup ps ! Suc i)) \<and>
         (\<forall>i j. i < j \<and> j < length (sortAndDedup ps) \<longrightarrow>
            \<not> (Proto (sortAndDedup ps ! i) = Proto (sortAndDedup ps ! j) \<and>
               Port (sortAndDedup ps ! i) = Port (sortAndDedup ps ! j)))"
proof (intro conjI allI impI)
  fix i
  assume "Suc i < length (sortAndDedup ps)"
  then show "lessThan_Port (sortAndDedup ps ! i) (sortAndDedup ps ! Suc i)"
    using sortAndDedup_strict [of ps] by (simp add: sorted_wrt_iff_nth_less)
next
  fix i j
  assume "i < j \<and> j < length (sortAndDedup ps)"
  then have "protoPortKey (sortAndDedup ps ! i) < protoPortKey (sortAndDedup ps ! j)"
    using sortAndDedup_strict_keys [of ps] by (simp add: sorted_wrt_iff_nth_less)
  then show "\<not> (Proto (sortAndDedup ps ! i) = Proto (sortAndDedup ps ! j) \<and>
               Port (sortAndDedup ps ! i) = Port (sortAndDedup ps ! j))"
    by (auto simp: protoPortKey_def)
qed

theorem sortAndDedup_strictly_increasing_witness:
  "wellFormed [tcp80, tcp80nginx, udp53] \<and>
   Suc 0 < length (sortAndDedup [tcp80, tcp80nginx, udp53]) \<and>
   lessThan_Port (sortAndDedup [tcp80, tcp80nginx, udp53] ! 0)
     (sortAndDedup [tcp80, tcp80nginx, udp53] ! Suc 0) \<and>
   \<not> (Proto (sortAndDedup [tcp80, tcp80nginx, udp53] ! 0) =
        Proto (sortAndDedup [tcp80, tcp80nginx, udp53] ! Suc 0) \<and>
      Port (sortAndDedup [tcp80, tcp80nginx, udp53] ! 0) =
        Port (sortAndDedup [tcp80, tcp80nginx, udp53] ! Suc 0))"
proof -
  have h: "wellFormed [tcp80, tcp80nginx, udp53]"
    by (simp add: wellFormed_def)
  have l: "Suc 0 < length (sortAndDedup [tcp80, tcp80nginx, udp53])"
    by (simp add: sortAndDedup_key protoPortKey_def lessThan_Port_def)
  have m: "(0::nat) < Suc 0 \<and> Suc 0 < length (sortAndDedup [tcp80, tcp80nginx, udp53])"
    using l by simp
  show ?thesis
    using h l m sortAndDedup_strictly_increasing [OF h] by blast
qed

text \<open>
  Claim C9. No observation with the empty protocol and port 0 appears in the output,
  not even when it is the only observation of the batch: the dedup pass starts with
  the zero \<open>Port\<close> as its last seen key.
\<close>

theorem sortAndDedup_drops_zero_key:
  "(\<forall>p\<in>set (sortAndDedup ps). \<not> (Proto p = [] \<and> Port p = 0)) \<and>
   sortAndDedup [\<lparr>Proto = [], Port = 0, Process = s, inode = t\<rparr>] = []"
proof
  have "(0, []) \<notin> protoPortKey ` set (sortAndDedup ps)"
    by (simp add: sortAndDedup_keys)
  then show "\<forall>p\<in>set (sortAndDedup ps). \<not> (Proto p = [] \<and> Port p = 0)"
    by (auto simp: protoPortKey_def image_iff)
  show "sortAndDedup [\<lparr>Proto = [], Port = 0, Process = s, inode = t\<rparr>] = []"
    by (simp add: sortAndDedup_key protoPortKey_def)
qed

theorem sortAndDedup_drops_zero_key_witness:
  "sortAndDedup [udp53, \<lparr>Proto = [], Port = 0, Process = ''x'', inode = ''sock9''\<rparr>] = [udp53] \<and>
   \<not> (Proto udp53 = [] \<and> Port udp53 = 0)"
proof -
  have e: "sortAndDedup [udp53, \<lparr>Proto = [], Port = 0, Process = ''x'', inode = ''sock9''\<rparr>] = [udp53]"
    by (simp add: sortAndDedup_key protoPortKey_def lessThan_Port_def)
  show ?thesis
    using e sortAndDedup_drops_zero_key
      [of "[udp53, \<lparr>Proto = [], Port = 0, Process = ''x'', inode = ''sock9''\<rparr>]"]
    by simp
qed

text \<open>
  Claim C2. For a well-formed batch and every observation \<open>q\<close> in it, the output
  holds exactly one observation with the key (protocol, port) of \<open>q\<close>; it comes from
  the batch, and its pair (socket identity, process) is lexicographically smallest
  among the observations of the batch with that key.
\<close>

theorem sortAndDedup_one_smallest_per_key:
  assumes "wellFormed ps" and "q \<in> set ps"
  shows "\<exists>r. filter (\<lambda>x. Proto x = Proto q \<and> Port x = Port q) (sortAndDedup ps) = [r] \<and>
             r \<in> set ps \<and> Proto r = Proto q \<and> Port r = Port q \<and>
             (\<forall>x\<in>set ps. Proto x = Proto q \<and> Port x = Port q \<longrightarrow>
                 inode r < inode x \<or> (inode r = inode x \<and> Process r \<le> Process x))"
proof -
  from assms have "Proto q \<noteq> []"
    by (auto simp: wellFormed_def list_all_iff)
  then have "protoPortKey q \<noteq> (0, [])" by (simp add: protoPortKey_def)
  with assms(2) have "protoPortKey q \<in> protoPortKey ` set (sortAndDedup ps)"
    by (simp add: sortAndDedup_keys)
  then obtain r where r: "r \<in> set (sortAndDedup ps)" and k: "protoPortKey r = protoPortKey q"
    by auto
  have same: "(\<lambda>x. Proto x = Proto q \<and> Port x = Port q) = (\<lambda>x. protoPortKey x = protoPortKey r)"
    using k by (auto simp: protoPortKey_def fun_eq_iff)
  have "filter (\<lambda>x. protoPortKey x = protoPortKey r) (sortAndDedup ps) = [r]"
    using sortAndDedup_distinct_keys r by (rule filter_distinct_key)
  moreover have "r \<in> set ps" using r sortAndDedup_subset by auto
  moreover have "\<forall>x\<in>set ps. protoPortKey x = protoPortKey r \<longrightarrow>
      inode r < inode x \<or> (inode r = inode x \<and> Process r \<le> Process x)"
  proof (intro ballI impI)
    fix x assume x: "x \<in> set ps" "protoPortKey x = protoPortKey r"
    then have "sortKey r \<le> sortKey x" using r by (intro sortAndDedup_first)
    with x(2) show "inode r < inode x \<or> (inode r = inode x \<and> Process r \<le> Process x)"
      by (auto simp: sortKey_def protoPortKey_def)
  qed
  moreover have "Proto r = Proto q \<and> Port r = Port q"
    using k by (simp add: protoPortKey_def)
  ultimately have "filter (\<lambda>x. protoPortKey x = protoPortKey r) (sortAndDedup ps) = [r] \<and>
      r \<in> set ps \<and> Proto r = Proto q \<and> Port r = Port q \<and>
      (\<forall>x\<in>set ps. protoPortKey x = protoPortKey r \<longrightarrow>
          inode r < inode x \<or> (inode r = inode x \<and> Process r \<le> Process x))"
    by simp
  then show ?thesis
    unfolding same [symmetric] fun_cong [OF same, symmetric] by (rule exI)
qed

theorem sortAndDedup_one_smallest_per_key_witness:
  "wellFormed [tcp80nginx, udp53, tcp80] \<and> tcp80nginx \<in> set [tcp80nginx, udp53, tcp80] \<and>
   filter (\<lambda>x. Proto x = Proto tcp80nginx \<and> Port x = Port tcp80nginx)
     (sortAndDedup [tcp80nginx, udp53, tcp80]) = [tcp80] \<and>
   tcp80 \<in> set [tcp80nginx, udp53, tcp80] \<and>
   (inode tcp80 < inode tcp80nginx \<or>
    (inode tcp80 = inode tcp80nginx \<and> Process tcp80 \<le> Process tcp80nginx))"
proof -
  have h: "wellFormed [tcp80nginx, udp53, tcp80]"
    by (simp add: wellFormed_def)
  have m: "tcp80nginx \<in> set [tcp80nginx, udp53, tcp80]"
    by simp
  have e: "filter (\<lambda>x. Proto x = Proto tcp80nginx \<and> Port x = Port tcp80nginx)
     (sortAndDedup [tcp80nginx, udp53, tcp80]) = [tcp80]"
    by (simp add: sortAndDedup_key protoPortKey_def lessThan_Port_def)
  from sortAndDedup_one_smallest_per_key [OF h m] obtain r where
    r: "filter (\<lambda>x. Proto x = Proto tcp80nginx \<and> Port x = Port tcp80nginx)
          (sortAndDedup [tcp80nginx, udp53, tcp80]) = [r]"
       "r \<in> set [tcp80nginx, udp53, tcp80]"
       "Proto r = Proto tcp80nginx \<and> Port r = Port tcp80nginx"
       "\<forall>x\<in>set [tcp80nginx, udp53, tcp80].
            Proto x = Proto tcp80nginx \<and> Port x = Port tcp80nginx \<longrightarrow>
            inode r < inode x \<or> (inode r = inode x \<and> Process r \<le> Process x)"
    by blast
  from r(1) e have "r = tcp80" by simp
  with r(2,4) h m e show ?thesis by simp
qed

section \<open>The claims about the change detector\<close>

lemma sameInodes_loop_Inr:
  "length a = length b \<Longrightarrow>
   sameInodes_loop a b i =
     Inr (\<forall>j. i \<le> j \<and> j < length a \<longrightarrow>
            Proto (a ! j) = Proto (b ! j) \<and> Port (a ! j) = Port (b ! j) \<and>
            inode (a ! j) = inode (b ! j))"
proof (induction a b i rule: sameInodes_loop.induct)
  case (1 a b i)
  show ?case
  proof (cases "i < length a")
    case False
    then show ?thesis by (subst sameInodes_loop.simps) auto
  next
    case True
    then have ia: "index a i = Inr (a ! i)" and ib: "index b i = Inr (b ! i)"
      using "1.prems" by (simp_all add: index_def)
    show ?thesis
    proof (cases "Proto (a ! i) \<noteq> Proto (b ! i) \<or> Port (a ! i) \<noteq> Port (b ! i) \<or>
        inode (a ! i) \<noteq> inode (b ! i)")
      case differ: True
      have "sameInodes_loop a b i = Inr False"
        using True ia ib differ by (subst sameInodes_loop.simps) auto
      moreover have "\<not> (\<forall>j. i \<le> j \<and> j < length a \<longrightarrow>
            Proto (a ! j) = Proto (b ! j) \<and> Port (a ! j) = Port (b ! j) \<and>
            inode (a ! j) = inode (b ! j))"
        using True differ by (intro notI) (drule spec [of _ i], auto)
      ultimately show ?thesis by simp
    next
      case agree: False
      have "sameInodes_loop a b i = sameInodes_loop a b (i + 1)"
        using True ia ib agree by (subst sameInodes_loop.simps) auto
      also have "\<dots> = Inr (\<forall>j. i + 1 \<le> j \<and> j < length a \<longrightarrow>
            Proto (a ! j) = Proto (b ! j) \<and> Port (a ! j) = Port (b ! j) \<and>
            inode (a ! j) = inode (b ! j))"
        using "1.IH" [OF True ia ib agree "1.prems"] .
      also have "(\<forall>j. i + 1 \<le> j \<and> j < length a \<longrightarrow>
            Proto (a ! j) = Proto (b ! j) \<and> Port (a ! j) = Port (b ! j) \<and>
            inode (a ! j) = inode (b ! j)) =
          (\<forall>j. i \<le> j \<and> j < length a \<longrightarrow>
            Proto (a ! j) = Proto (b ! j) \<and> Port (a ! j) = Port (b ! j) \<and>
            inode (a ! j) = inode (b ! j))"
      proof -
        have "\<And>j. i \<le> j \<longleftrightarrow> j = i \<or> i + 1 \<le> j" by auto
        with agree show ?thesis by metis
      qed
      finally show ?thesis .
    qed
  qed
qed

lemma sameInodes_Inr:
  "sameInodes a b =
     Inr (length a = length b \<and>
          (\<forall>i<length a. Proto (a ! i) = Proto (b ! i) \<and> Port (a ! i) = Port (b ! i) \<and>
             inode (a ! i) = inode (b ! i)))"
  by (simp add: sameInodes_def sameInodes_loop_Inr)

lemma length_setProcesses:
  "length procs = length pl \<Longrightarrow> length (setProcesses pl procs) = length pl"
  by (simp add: setProcesses_def)

lemma nth_setProcesses:
  "length procs = length pl \<Longrightarrow> i < length pl \<Longrightarrow>
   setProcesses pl procs ! i = (pl ! i)\<lparr>Process := procs ! i\<rparr>"
  by (simp add: setProcesses_def)

text \<open>
  Claim C4. \<open>sameInodes\<close> returns true if and only if the two snapshots have the
  same length and agree at every index on protocol, port and socket identity; the
  process field never affects the result: replacing the process names of both
  snapshots in any way leaves the result as it was.
\<close>

theorem sameInodes_iff_fields_agree:
  "(sameInodes a b = Inr True \<longleftrightarrow>
      length a = length b \<and>
      (\<forall>i<length a. Proto (a ! i) = Proto (b ! i) \<and> Port (a ! i) = Port (b ! i) \<and>
         inode (a ! i) = inode (b ! i))) \<and>
   (length as = length a \<and> length bs = length b \<longrightarrow>
      sameInodes (setProcesses a as) (setProcesses b bs) = sameInodes a b)"
proof (intro conjI impI)
  show "sameInodes a b = Inr True \<longleftrightarrow>
      length a = length b \<and>
      (\<forall>i<length a. Proto (a ! i) = Proto (b ! i) \<and> Port (a ! i) = Port (b ! i) \<and>
         inode (a ! i) = inode (b ! i))"
    by (simp add: sameInodes_Inr)
next
  assume "length as = length a \<and> length bs = length b"
  then show "sameInodes (setProcesses a as) (setProcesses b bs) = sameInodes a b"
    by (auto simp: sameInodes_Inr length_setProcesses nth_setProcesses)
qed

theorem sameInodes_iff_fields_agree_witness:
  "length [sshdA] = length [sshd2A] \<and>
   Proto ([sshdA] ! 0) = Proto ([sshd2A] ! 0) \<and> Port ([sshdA] ! 0) = Port ([sshd2A] ! 0) \<and>
   inode ([sshdA] ! 0) = inode ([sshd2A] ! 0) \<and>
   sameInodes [sshdA] [sshd2A] = Inr True \<and>
   length [''a''] = length [sshdA] \<and> length [''b''] = length [sshdB] \<and>
   sameInodes (setProcesses [sshdA] [''a'']) (setProcesses [sshdB] [''b'']) =
     sameInodes [sshdA] [sshdB]"
proof -
  have c: "length [sshdA] = length [sshd2A] \<and>
      (\<forall>i<length [sshdA]. Proto ([sshdA] ! i) = Proto ([sshd2A] ! i) \<and>
         Port ([sshdA] ! i) = Port ([sshd2A] ! i) \<and> inode ([sshdA] ! i) = inode ([sshd2A] ! i))"
    by simp
  have l: "length [''a''] = length [sshdA] \<and> length [''b''] = length [sshdB]"
    by simp
  show ?thesis
    using c l sameInodes_iff_fields_agree [of "[sshdA]" "[sshd2A]" "[]" "[]"]
      sameInodes_iff_fields_agree [of "[sshdA]" "[sshdB]" "[''a'']" "[''b'']"]
    by simp
qed

text \<open>
  Claim C5. Change suppression: a snapshot is unchanged against itself; it is
  unchanged against any snapshot obtained from it by replacing process names only;
  and it is changed against every snapshot of another length or with another
  protocol, port or socket identity at some index.
\<close>

theorem sameInodes_change_suppression:
  "sameInodes S S = Inr True \<and>
   (length procs = length S \<longrightarrow> sameInodes S (setProcesses S procs) = Inr True) \<and>
   (length S' \<noteq> length S \<or>
    (\<exists>i<length S. Proto (S' ! i) \<noteq> Proto (S ! i) \<or> Port (S' ! i) \<noteq> Port (S ! i) \<or>
        inode (S' ! i) \<noteq> inode (S ! i)) \<longrightarrow>
      sameInodes S S' = Inr False)"
proof (intro conjI impI)
  show "sameInodes S S = Inr True"
    by (simp add: sameInodes_Inr)
next
  assume "length procs = length S"
  then show "sameInodes S (setProcesses S procs) = Inr True"
    by (simp add: sameInodes_Inr length_setProcesses nth_setProcesses)
next
  assume "length S' \<noteq> length S \<or>
    (\<exists>i<length S. Proto (S' ! i) \<noteq> Proto (S ! i) \<or> Port (S' ! i) \<noteq> Port (S ! i) \<or>
        inode (S' ! i) \<noteq> inode (S ! i))"
  then show "sameInodes S S' = Inr False"
    by (auto simp: sameInodes_Inr)
qed

theorem sameInodes_change_suppression_witness:
  "sameInodes [sshdA] [sshdA] = Inr True \<and>
   length [''sshd2''] = length [sshdA] \<and>
   setProcesses [sshdA] [''sshd2''] = [sshd2A] \<and>
   sameInodes [sshdA] [sshd2A] = Inr True \<and>
   0 < length [sshdA] \<and> inode ([sshdB] ! 0) \<noteq> inode ([sshdA] ! 0) \<and>
   sameInodes [sshdA] [sshdB] = Inr False \<and>
   length [sshdA, sshdA] \<noteq> length [sshdA] \<and>
   sameInodes [sshdA] [sshdA, sshdA] = Inr False"
proof -
  have l: "length [''sshd2''] = length [sshdA]" by simp
  have s: "setProcesses [sshdA] [''sshd2''] = [sshd2A]" by (simp add: setProcesses_def)
  have d: "0 < length [sshdA] \<and> inode ([sshdB] ! 0) \<noteq> inode ([sshdA] ! 0)" by simp
  have n: "length [sshdA, sshdA] \<noteq> length [sshdA]" by simp
  have 1: "sameInodes [sshdA] [sshdA] = Inr True"
    using sameInodes_change_suppression [of "[sshdA]"] by blast
  have 2: "sameInodes [sshdA] [sshd2A] = Inr True"
    using sameInodes_change_suppression [of "[sshdA]" "[''sshd2'']"] l s by simp
  have 3: "sameInodes [sshdA] [sshdB] = Inr False"
    using sameInodes_change_suppression [of "[sshdA]" _ "[sshdB]"] d by blast
  have 4: "sameInodes [sshdA] [sshdA, sshdA] = Inr False"
    using sameInodes_change_suppression [of "[sshdA]" _ "[sshdA, sshdA]"] n by blast
  from l s d n 1 2 3 4 show ?thesis by blast
qed

section \<open>The claim about rendering\<close>

lemma String_loop_concat:
  "String_loop runeCount escape pl sb = sb @ concat (map (Fprintf_Port runeCount escape) pl)"
  by (induction pl arbitrary: sb) simp_all

lemma TrimRight_newline_snoc:
  "l \<noteq> [] \<Longrightarrow> last l \<noteq> CHR 0x0A \<Longrightarrow> TrimRight_newline (l @ [CHR 0x0A]) = l"
proof -
  assume "l \<noteq> []" and "last l \<noteq> CHR 0x0A"
  then have "dropWhile (\<lambda>c. c = CHR 0x0A) (rev l) = rev l"
    by (cases l rule: rev_cases) simp_all
  then show ?thesis by (simp add: TrimRight_newline_def)
qed

lemma TrimRight_newline_append:
  "TrimRight_newline ys \<noteq> [] \<Longrightarrow> TrimRight_newline (xs @ ys) = xs @ TrimRight_newline ys"
proof -
  assume "TrimRight_newline ys \<noteq> []"
  then have "dropWhile (\<lambda>c. c = CHR 0x0A) (rev ys) \<noteq> []"
    by (simp add: TrimRight_newline_def)
  then obtain c where "c \<in> set (rev ys)" "c \<noteq> CHR 0x0A"
    by (auto simp: dropWhile_eq_Nil_conv)
  then have "dropWhile (\<lambda>c. c = CHR 0x0A) (rev ys @ rev xs) =
      dropWhile (\<lambda>c. c = CHR 0x0A) (rev ys) @ rev xs"
    by (intro dropWhile_append1) auto
  then show ?thesis by (simp add: TrimRight_newline_def)
qed

lemma joinLines_nonempty: "l \<noteq> [] \<Longrightarrow> joinLines (l # ls) \<noteq> []"
  by (cases ls) simp_all

lemma joinLines_last:
  "\<forall>l\<in>set ls. l \<noteq> [] \<and> last l \<noteq> CHR 0x0A \<Longrightarrow>
   joinLines ls = [] \<or> last (joinLines ls) \<noteq> CHR 0x0A"
proof (induction ls rule: joinLines.induct)
  case 1
  show ?case by simp
next
  case (2 l)
  then show ?case by simp
next
  case (3 l l' ls)
  have ne: "joinLines (l' # ls) \<noteq> []"
    using "3.prems" by (intro joinLines_nonempty) simp
  with 3 have "last (joinLines (l' # ls)) \<noteq> CHR 0x0A" by simp
  with ne show ?case by simp
qed

lemma TrimRight_newline_lines:
  "\<forall>l\<in>set ls. l \<noteq> [] \<and> last l \<noteq> CHR 0x0A \<Longrightarrow>
   TrimRight_newline (concat (map (\<lambda>l. l @ [CHR 0x0A]) ls)) = joinLines ls"
proof (induction ls rule: joinLines.induct)
  case 1
  show ?case by (simp add: TrimRight_newline_def)
next
  case (2 l)
  then show ?case by (simp add: TrimRight_newline_snoc)
next
  case (3 l l' ls)
  let ?rest = "concat (map (\<lambda>l. l @ [CHR 0x0A]) (l' # ls))"
  have ih: "TrimRight_newline ?rest = joinLines (l' # ls)"
    using 3 by simp
  have ne: "joinLines (l' # ls) \<noteq> []"
    using "3.prems" by (intro joinLines_nonempty) simp
  have "TrimRight_newline ((l @ [CHR 0x0A]) @ ?rest) = (l @ [CHR 0x0A]) @ TrimRight_newline ?rest"
    using ih ne by (intro TrimRight_newline_append) simp
  with ih show ?case by simp
qed

lemma Fprintf_Port_line:
  "Fprintf_Port runeCount escape v = specLine runeCount escape v @ [CHR 0x0A]"
  by (simp add: Fprintf_Port_def specLine_def fmt_s_left_def fmt_d_def fmt_sharp_v_def)

lemma specLine_end: "specLine runeCount escape v \<noteq> [] \<and> last (specLine runeCount escape v) \<noteq> CHR 0x0A"
proof -
  have "\<exists>xs. specLine runeCount escape v = xs @ [CHR 0x22]"
    unfolding specLine_def by (metis append_assoc)
  then obtain xs where "specLine runeCount escape v = xs @ [CHR 0x22]" ..
  then show ?thesis by simp
qed

lemma String_List_joinLines:
  "String_List runeCount escape pl = joinLines (map (specLine runeCount escape) pl)"
proof -
  have "concat (map (Fprintf_Port runeCount escape) pl) =
      concat (map (\<lambda>l. l @ [CHR 0x0A]) (map (specLine runeCount escape) pl))"
    using ext [of "Fprintf_Port runeCount escape", OF Fprintf_Port_line]
    by (simp add: comp_def)
  then show ?thesis
    by (simp add: String_List_def String_loop_concat TrimRight_newline_lines specLine_end del: map_map)
qed

text \<open>
  \<open>%s\<close> copies the protocol and the socket identity as they are. When neither of
  them nor the escaped process name holds a newline byte, the lines of the text are
  physical lines: a snapshot of \<open>n\<close> observations renders with \<open>n - 1\<close> newlines.
\<close>

lemma digit_not_newline: "d < 10 \<Longrightarrow> digit d \<noteq> CHR 0x0A"
proof
  assume d: "d < 10" and "digit d = CHR 0x0A"
  then have "of_char (char_of (48 + d)) = (of_char (CHR 0x0A) :: nat)"
    by (simp add: digit_def)
  with d show False by (simp add: of_char_of)
qed

lemma decimal_no_newline: "CHR 0x0A \<notin> set (decimal n)"
proof (induction n rule: decimal.induct)
  case (1 n)
  show ?case
  proof (cases "n < 10")
    case True
    then show ?thesis
      using digit_not_newline [of n] by (subst decimal.simps) auto
  next
    case False
    have "n mod 10 < 10" by simp
    then have "digit (n mod 10) \<noteq> CHR 0x0A" by (rule digit_not_newline)
    with False "1.IH" show ?thesis
      by (subst decimal.simps) auto
  qed
qed

lemma specLine_no_newline:
  "CHR 0x0A \<notin> set (Proto v) \<Longrightarrow> CHR 0x0A \<notin> set (inode v) \<Longrightarrow>
   CHR 0x0A \<notin> set (escape (Process v)) \<Longrightarrow> CHR 0x0A \<notin> set (specLine runeCount escape v)"
  by (auto simp: specLine_def decimal_no_newline)

lemma count_newline_joinLines:
  "\<forall>l\<in>set ls. CHR 0x0A \<notin> set l \<Longrightarrow> count_list (joinLines ls) CHR 0x0A = length ls - 1"
  by (induction ls rule: joinLines.induct) simp_all

lemma String_List_newline_count:
  assumes "\<forall>v\<in>set pl. CHR 0x0A \<notin> set (Proto v) \<and> CHR 0x0A \<notin> set (inode v) \<and>
             CHR 0x0A \<notin> set (escape (Process v))"
  shows "count_list (String_List runeCount escape pl) CHR 0x0A = length pl - 1"
proof -
  have "\<forall>l\<in>set (map (specLine runeCount escape) pl). CHR 0x0A \<notin> set l"
    using assms by (auto simp: specLine_no_newline)
  then have "count_list (joinLines (map (specLine runeCount escape) pl)) CHR 0x0A =
      length (map (specLine runeCount escape) pl) - 1"
    by (rule count_newline_joinLines)
  then show ?thesis by (simp add: String_List_joinLines)
qed

lemma digit_values:
  "digit 0 = CHR ''0''" "digit 1 = CHR ''1''" "digit 2 = CHR ''2''" "digit 3 = CHR ''3''"
  "digit 4 = CHR ''4''" "digit 5 = CHR ''5''" "digit 6 = CHR ''6''" "digit 7 = CHR ''7''"
  "digit 8 = CHR ''8''" "digit 9 = CHR ''9''"
  by code_simp+

lemma replicate_numeral: "replicate (numeral k) x = x # replicate (pred_numeral k) x"
  by (simp add: numeral_eq_Suc)

lemma of_char_digit: "d < 10 \<Longrightarrow> of_char (digit d) = 48 + d"
  by (simp add: digit_def of_char_of)

lemma natOfDigits_snoc:
  "natOfDigits (ds @ [c]) = 10 * natOfDigits ds + (of_char c - 48)"
  by (simp add: natOfDigits_def)

lemma natOfDigits_decimal: "natOfDigits (decimal n) = n"
proof (induction n rule: decimal.induct)
  case (1 n)
  show ?case
  proof (cases "n < 10")
    case True
    then show ?thesis
      by (subst decimal.simps) (simp add: natOfDigits_def of_char_digit)
  next
    case False
    have "natOfDigits (decimal n) = 10 * natOfDigits (decimal (n div 10)) + (of_char (digit (n mod 10)) - 48)"
      using False by (subst decimal.simps) (simp add: natOfDigits_snoc)
    also have "\<dots> = 10 * (n div 10) + n mod 10"
      using "1.IH" [OF False] by (simp add: of_char_digit)
    finally show ?thesis by simp
  qed
qed

lemma isDigit_digit: "d < 10 \<Longrightarrow> isDigit (digit d)"
  by (simp add: isDigit_def less_eq_char_def of_char_digit)

lemma decimal_digits: "list_all isDigit (decimal n)"
proof (induction n rule: decimal.induct)
  case (1 n)
  show ?case
  proof (cases "n < 10")
    case True
    then show ?thesis by (subst decimal.simps) (simp add: isDigit_digit)
  next
    case False
    with "1.IH" show ?thesis by (subst decimal.simps) (simp add: isDigit_digit)
  qed
qed

lemma decimal_nonempty: "decimal n \<noteq> []"
  by (subst decimal.simps) simp

lemma decimal_no_leading_zero: "0 < n \<Longrightarrow> hd (decimal n) \<noteq> CHR ''0''"
proof (induction n rule: decimal.induct)
  case (1 n)
  show ?case
  proof (cases "n < 10")
    case True
    have "of_char (digit n) \<noteq> (of_char CHR ''0'' :: nat)"
      using True "1.prems" by (simp add: of_char_digit)
    then have "digit n \<noteq> CHR ''0''" by auto
    with True show ?thesis by (subst decimal.simps) simp
  next
    case False
    then have "0 < n div 10" by simp
    with "1.IH" [OF False] have "hd (decimal (n div 10)) \<noteq> CHR ''0''" by simp
    with False show ?thesis
      by (subst decimal.simps) (simp add: decimal_nonempty)
  qed
qed

lemma decimal_zero: "decimal 0 = ''0''"
  by code_simp

lemma length_decimal: "0 < k \<Longrightarrow> n < 10 ^ k \<Longrightarrow> length (decimal n) \<le> k"
proof (induction n arbitrary: k rule: decimal.induct)
  case (1 n)
  show ?case
  proof (cases "n < 10")
    case True
    with "1.prems" show ?thesis by (subst decimal.simps) simp
  next
    case False
    with "1.prems" have "1 < k"
      by (cases "k = 1") auto
    then obtain k' where k: "k = Suc k'" and k': "0 < k'"
      by (cases k) auto
    from "1.prems"(2) k have "n div 10 < 10 ^ k'"
      by (simp add: less_mult_imp_div_less mult.commute)
    with "1.IH" [OF False k'] have "length (decimal (n div 10)) \<le> k'" by simp
    with False k show ?thesis by (subst decimal.simps) simp
  qed
qed

lemma length_decimal_u16: "length (decimal (unat (w :: 16 word))) \<le> 5"
proof -
  have "unat w < 2 ^ 16" using unsigned_less [of w] by simp
  then have "unat w < 10 ^ 5" by simp
  then show ?thesis by (intro length_decimal) simp_all
qed

lemma splitNewline_append:
  "CHR 0x0A \<notin> set l \<Longrightarrow> splitNewline cur (l @ rest) = splitNewline (cur @ l) rest"
  by (induction l arbitrary: cur) auto

lemma physicalLines_joinLines:
  "\<forall>l\<in>set ls. l \<noteq> [] \<and> CHR 0x0A \<notin> set l \<Longrightarrow> physicalLines (joinLines ls) = ls"
proof (induction ls rule: joinLines.induct)
  case 1
  show ?case by (simp add: physicalLines_def)
next
  case (2 l)
  then have "splitNewline [] (l @ []) = splitNewline ([] @ l) []"
    by (intro splitNewline_append) simp
  with 2 show ?case by (simp add: physicalLines_def)
next
  case (3 l l' ls)
  let ?J = "joinLines (l' # ls)"
  have ne: "?J \<noteq> []"
    using "3.prems" by (intro joinLines_nonempty) simp
  have ih: "physicalLines ?J = l' # ls"
    using 3 by simp
  have "splitNewline [] (l @ CHR 0x0A # ?J) = splitNewline ([] @ l) (CHR 0x0A # ?J)"
    using "3.prems" by (intro splitNewline_append) simp
  also have "\<dots> = l # splitNewline [] ?J" by simp
  also have "splitNewline [] ?J = physicalLines ?J"
    using ne by (simp add: physicalLines_def)
  finally show ?case using ih by (simp add: physicalLines_def)
qed

text \<open>
  Claim C8, as the code has it. \<open>String\<close> produces one record per observation, in
  the order of the snapshot: the protocol left-justified to at least 3 characters, a
  space, the port in decimal right-justified to at least 5 characters, a space, the
  socket identity left-justified to at least 17 characters, a space, and the process
  name as a quoted, escaped literal. The records are separated by single newlines, the
  text does not end in a newline, and the empty snapshot renders as the empty string.
  When no protocol, socket identity or escaped process name of the snapshot holds a
  newline, the physical lines of the text are exactly these records, one line per
  observation. The port column is pinned by value: the digits of \<open>decimal n\<close> are
  decimal digits with value \<open>n\<close> and no leading zero, at most 5 of them for a 16-bit
  port.
\<close>

theorem String_List_lines:
  "String_List runeCount escape pl = joinLines (map (specLine runeCount escape) pl) \<and>
   (String_List runeCount escape pl = [] \<or>
    last (String_List runeCount escape pl) \<noteq> CHR 0x0A) \<and>
   String_List runeCount escape [] = [] \<and>
   ((\<forall>v\<in>set pl. CHR 0x0A \<notin> set (Proto v) \<and> CHR 0x0A \<notin> set (inode v) \<and>
        CHR 0x0A \<notin> set (escape (Process v))) \<longrightarrow>
      physicalLines (String_List runeCount escape pl) = map (specLine runeCount escape) pl \<and>
      length (physicalLines (String_List runeCount escape pl)) = length pl) \<and>
   natOfDigits (decimal n) = n \<and> list_all isDigit (decimal n) \<and>
   decimal 0 = ''0'' \<and> (0 < n \<longrightarrow> hd (decimal n) \<noteq> CHR ''0'') \<and>
   length (decimal (unat (w :: 16 word))) \<le> 5"
proof (intro conjI impI)
  show j: "String_List runeCount escape pl = joinLines (map (specLine runeCount escape) pl)"
    by (rule String_List_joinLines)
  show "String_List runeCount escape pl = [] \<or>
      last (String_List runeCount escape pl) \<noteq> CHR 0x0A"
    unfolding j by (rule joinLines_last) (simp add: specLine_end)
  show "String_List runeCount escape [] = []"
    by (simp add: String_List_joinLines)
  show "natOfDigits (decimal n) = n" by (rule natOfDigits_decimal)
  show "list_all isDigit (decimal n)" by (rule decimal_digits)
  show "decimal 0 = ''0''" by (rule decimal_zero)
  show "length (decimal (unat w)) \<le> 5" by (rule length_decimal_u16)
next
  assume "0 < n"
  then show "hd (decimal n) \<noteq> CHR ''0''" by (rule decimal_no_leading_zero)
next
  assume h: "\<forall>v\<in>set pl. CHR 0x0A \<notin> set (Proto v) \<and> CHR 0x0A \<notin> set (inode v) \<and>
        CHR 0x0A \<notin> set (escape (Process v))"
  have "\<forall>l\<in>set (map (specLine runeCount escape) pl). l \<noteq> [] \<and> CHR 0x0A \<notin> set l"
    using h by (auto simp: specLine_no_newline specLine_end)
  then have "physicalLines (joinLines (map (specLine runeCount escape) pl)) =
      map (specLine runeCount escape) pl"
    by (rule physicalLines_joinLines)
  then show p: "physicalLines (String_List runeCount escape pl) =
      map (specLine runeCount escape) pl"
    by (simp add: String_List_joinLines)
  show "length (physicalLines (String_List runeCount escape pl)) = length pl"
    unfolding p by simp
qed

theorem String_List_lines_witness:
  "list_all (\<lambda>v. CHR 0x0A \<notin> set (Proto v) \<and> CHR 0x0A \<notin> set (inode v) \<and>
        CHR 0x0A \<notin> set (id (Process v))) [sshdA, udp53, udp65535] \<and>
   physicalLines (String_List length id [sshdA, udp53, udp65535]) =
     [''tcp    22 sockA             \"sshd\"'',
      ''udp    53 sock3             \"dns\"'',
      ''udp 65535 socket:[165614651] \"dns\"''] \<and>
   map (specLine length id) [sshdA, udp53, udp65535] =
     [''tcp    22 sockA             \"sshd\"'',
      ''udp    53 sock3             \"dns\"'',
      ''udp 65535 socket:[165614651] \"dns\"''] \<and>
   length (physicalLines (String_List length id [sshdA, udp53, udp65535])) = 3 \<and>
   (0::nat) < 65535 \<and> decimal 65535 = ''65535'' \<and> natOfDigits (decimal 65535) = 65535 \<and>
   hd (decimal 65535) \<noteq> CHR ''0''"
proof -
  have h: "\<forall>v\<in>set [sshdA, udp53, udp65535]. CHR 0x0A \<notin> set (Proto v) \<and>
      CHR 0x0A \<notin> set (inode v) \<and> CHR 0x0A \<notin> set (id (Process v))"
    by simp
  have a: "list_all (\<lambda>v. CHR 0x0A \<notin> set (Proto v) \<and> CHR 0x0A \<notin> set (inode v) \<and>
        CHR 0x0A \<notin> set (id (Process v))) [sshdA, udp53, udp65535]"
    by simp
  have m: "map (specLine length id) [sshdA, udp53, udp65535] =
     [''tcp    22 sockA             \"sshd\"'',
      ''udp    53 sock3             \"dns\"'',
      ''udp 65535 socket:[165614651] \"dns\"'']"
    by (simp add: specLine_def decimal.simps digit_values replicate_numeral)
  have d: "decimal 65535 = ''65535''"
    by (simp add: decimal.simps digit_values)
  have z: "(0::nat) < 65535" by simp
  note rest = String_List_lines [of length id "[sshdA, udp53, udp65535]" 65535,
      THEN conjunct2, THEN conjunct2, THEN conjunct2]
  have p: "physicalLines (String_List length id [sshdA, udp53, udp65535]) =
        map (specLine length id) [sshdA, udp53, udp65535] \<and>
      length (physicalLines (String_List length id [sshdA, udp53, udp65535])) =
        length [sshdA, udp53, udp65535]"
    using rest [THEN conjunct1] h by (rule mp)
  have e: "physicalLines (String_List length id [sshdA, udp53, udp65535]) =
     [''tcp    22 sockA             \"sshd\"'',
      ''udp    53 sock3             \"dns\"'',
      ''udp 65535 socket:[165614651] \"dns\"'']"
    using p [THEN conjunct1] m by (rule trans)
  have l: "length (physicalLines (String_List length id [sshdA, udp53, udp65535])) = 3"
    using p [THEN conjunct2] by simp
  have v: "natOfDigits (decimal 65535) = 65535"
    by (rule rest [THEN conjunct2, THEN conjunct1])
  have n: "hd (decimal 65535) \<noteq> CHR ''0''"
    using rest [THEN conjunct2, THEN conjunct2, THEN conjunct2, THEN conjunct2, THEN conjunct1] z
    by (rule mp)
  from a e m l z d v n show ?thesis by (intro conjI)
qed

text \<open>
  As the claim was written, for every snapshot and with every record a line of its
  own, it fails: \<open>%s\<close> copies the socket identity unescaped, so the single
  observation below, whose identity holds a newline, renders as two lines.
\<close>

theorem String_List_lines_counterexample:
  "physicalLines (String_List length id [nlPort]) =
     [''tcp    80 a'', ''b               \"x\"''] \<and>
   length (physicalLines (String_List length id [nlPort])) \<noteq> length [nlPort]"
  by code_simp

section \<open>Totality\<close>

text \<open>
  Claim C7. The three operations are total and signal no error: every loop and every
  recursion of the embedding terminates on every input, the guarded index expressions
  of \<open>sameInodes\<close> never panic, and normalising the empty batch gives the empty
  snapshot (as rendering the empty snapshot gives the empty string).
\<close>

theorem operations_total:
  "(\<exists>r. sameInodes a b = Inr r) \<and>
   sortAndDedup [] = [] \<and>
   String_List runeCount escape [] = [] \<and>
   sameInodes_loop_dom (a, b, i) \<and>
   dedup_loop_dom (buf, j, n, l) \<and>
   insert_Slice_dom (p, qs) \<and>
   sort_Slice_dom ps \<and>
   String_loop_dom (runeCount, escape, pl, sb) \<and>
   decimal_dom k"
proof (intro conjI)
  show "\<exists>r. sameInodes a b = Inr r" by (simp add: sameInodes_Inr)
  show "sortAndDedup [] = []" by (simp add: sortAndDedup_pure)
  show "String_List runeCount escape [] = []" by (simp add: String_List_def TrimRight_newline_def)
  show "sameInodes_loop_dom (a, b, i)"
    using "sameInodes_loop.termination" [of "measure (\<lambda>(a, b, i). length a - i)"] by auto
  show "dedup_loop_dom (buf, j, n, l)"
    using "dedup_loop.termination" [of "measure (\<lambda>(buf, i, n, l). length buf - i)"] by auto
  show "insert_Slice_dom (p, qs)"
    using "insert_Slice.termination" [of "measure (\<lambda>(p, qs). length qs)"] by auto
  show "sort_Slice_dom ps"
    using "sort_Slice.termination" [of "measure length"] by auto
  show "String_loop_dom (runeCount, escape, pl, sb)"
    using "String_loop.termination" [of "measure (\<lambda>(r, e, pl, sb). length pl)"] by auto
  show "decimal_dom k"
    using "decimal.termination" [of "measure (\<lambda>n. n)"] by auto
qed

theorem operations_total_witness:
  "sameInodes [sshdA] [] = Inr False \<and> sameInodes [sshdA] [sshdB] = Inr False \<and>
   sortAndDedup [] = []"
proof -
  have "sameInodes [sshdA] [] = Inr False"
    by (simp add: sameInodes_def)
  moreover have "sameInodes [sshdA] [sshdB] = Inr False"
    by (simp add: sameInodes_def sameInodes_loop.simps index_def)
  ultimately show ?thesis
    using operations_total [of "[sshdA]" "[]"] by simp
qed

end
